theory Spec2Isabelle
  imports Complex_Main
begin

section \<open>The Reveal component of src/pages/nishanth-portofolio.tsx\<close>

text \<open>
  Reveal is a React function component: a state cell \<open>visible\<close> (\<open>useState(false)\<close>), a ref
  to its container \<open>div\<close>, one effect that runs at mount, and a render function. The
  effect, the observer callback, the timer callback and the cleanup are embedded as
  functions on an explicit state; the hosting environment (the media query, the
  IntersectionObserver constructor, the timer queue and the clock) is explicit too.

  Scope of the model: the props of an instance stay the same for its whole life, as at
  every use in the page (\<open>delay={i * 50}\<close> under a fixed key, \<open>delay={80}\<close>, or no delay),
  so the effect with dependency list \<open>[delay]\<close> runs once, at mount. \<open>delay\<close> is a
  JavaScript number that the callback hands to the host's \<open>setTimeout\<close> as it is; at
  every use in the page it is a small whole number of milliseconds. The wrapped
  \<open>children\<close> are opaque and passed through unchanged.
\<close>

subsection \<open>Props\<close>

text \<open>
  A JavaScript number: a finite value (every double is a rational), or one of the three
  values that are not finite.
\<close>

datatype number = Num rat | NaN | PosInfinity | NegInfinity

text \<open>\<open>interface RevealProp { children; className?: string; delay?: number }\<close>\<close>

record RevealProp =
  className :: "string option"
  delay :: "number option"

text \<open>The destructuring defaults \<open>className = ""\<close> and \<open>delay = 0\<close>.\<close>

definition className_of :: "RevealProp \<Rightarrow> string" where
  "className_of p = (case className p of None \<Rightarrow> '''' | Some c \<Rightarrow> c)"

definition delay_of :: "RevealProp \<Rightarrow> number" where
  "delay_of p = (case delay p of None \<Rightarrow> Num 0 | Some d \<Rightarrow> d)"

subsection \<open>Hosting environment\<close>

type_synonym element = nat

text \<open>
  What \<open>new IntersectionObserver(...)\<close> does in the hosting environment: it returns an
  observer, or the global is not defined (a ReferenceError), or the constructor throws.
\<close>

datatype facility = Available | Absent | Throwing

datatype error = ReferenceError | ConstructorError

text \<open>
  \<open>matchMedia\<close> is \<open>None\<close> where \<open>window.matchMedia\<close> is undefined, and otherwise the
  \<open>matches\<close> flag of the query \<open>(prefers-reduced-motion: reduce)\<close>. \<open>ref_current\<close> is
  \<open>ref.current\<close> when the effect runs.
\<close>

record env =
  matchMedia :: "bool option"
  ref_current :: "element option"
  intersectionObserver :: facility

text \<open>The two fields of an IntersectionObserverEntry that matter here; the callback reads
  only \<open>isIntersecting\<close>, which the observer sets from the ratio and its threshold
  (\<open>report\<close> below).\<close>

record IntersectionObserverEntry =
  isIntersecting :: bool
  intersectionRatio :: rat

text \<open>An observer: the \<open>threshold\<close> option it was built with and the elements it observes.\<close>

record IntersectionObserver =
  threshold :: rat
  targets :: "element list"

subsection \<open>State of one instance\<close>

text \<open>
  \<open>visible\<close> is the React state cell; \<open>obs\<close> the observer the effect created, if any;
  \<open>cleanup\<close> says whether the effect returned a cleanup function; \<open>timers\<close> holds the due
  times of the pending timeouts (each callback is \<open>() => setVisible(true)\<close>);
  \<open>timer_count\<close> counts the calls of \<open>setTimeout\<close> so far; \<open>now\<close> is the clock in
  milliseconds since mount.
\<close>

record reveal_state =
  visible :: bool
  obs :: "IntersectionObserver option"
  cleanup :: bool
  timers :: "nat list"
  timer_count :: nat
  now :: nat

text \<open>\<open>useState(false)\<close>, no observer, no timer.\<close>

definition initial :: reveal_state where
  "initial = \<lparr>visible = False, obs = None, cleanup = False, timers = [],
              timer_count = 0, now = 0\<rparr>"

definition setVisible :: "bool \<Rightarrow> reveal_state \<Rightarrow> reveal_state" where
  "setVisible b s = s\<lparr>visible := b\<rparr>"

text \<open>
  The host declares \<open>setTimeout(handler, long timeout)\<close>. The number it is given is
  converted to a signed 32-bit integer: a value that is not finite becomes 0, a finite
  one is truncated towards zero and wrapped modulo \<open>2^32 = 4294967296\<close> into the range
  from \<open>-2^31\<close> to \<open>2^31 - 1 = 2147483647\<close>.
\<close>

fun to_long :: "number \<Rightarrow> int" where
  "to_long (Num x) =
     (let i = (if 0 \<le> x then \<lfloor>x\<rfloor> else \<lceil>x\<rceil>);
          w = i mod 4294967296
      in if w < 2147483648 then w else w - 4294967296)"
| "to_long NaN = 0"
| "to_long PosInfinity = 0"
| "to_long NegInfinity = 0"

text \<open>A negative timeout counts as 0.\<close>

definition timeout_ms :: "number \<Rightarrow> nat" where
  "timeout_ms d = (if to_long d < 0 then 0 else nat (to_long d))"

text \<open>
  \<open>setTimeout(() => setVisible(true), d)\<close>: one more pending timeout, due after the
  milliseconds the host reads from \<open>d\<close>.
\<close>

definition setTimeout :: "number \<Rightarrow> reveal_state \<Rightarrow> reveal_state" where
  "setTimeout d s =
     s\<lparr>timers := timers s @ [now s + timeout_ms d], timer_count := Suc (timer_count s)\<rparr>"

text \<open>\<open>obs.disconnect()\<close>: the observer stops observing all its targets.\<close>

definition disconnect :: "reveal_state \<Rightarrow> reveal_state" where
  "disconnect s = s\<lparr>obs := map_option (\<lambda>ob. ob\<lparr>targets := []\<rparr>) (obs s)\<rparr>"

text \<open>\<open>obs.observe(el)\<close>\<close>

definition observe :: "element \<Rightarrow> reveal_state \<Rightarrow> reveal_state" where
  "observe el s = s\<lparr>obs := map_option (\<lambda>ob. ob\<lparr>targets := targets ob @ [el]\<rparr>) (obs s)\<rparr>"

text \<open>\<open>new IntersectionObserver(callback, { threshold: th })\<close>\<close>

definition new_IntersectionObserver :: "env \<Rightarrow> rat \<Rightarrow> reveal_state \<Rightarrow> error + reveal_state" where
  "new_IntersectionObserver e th s =
     (case intersectionObserver e of
        Available \<Rightarrow> Inr (s\<lparr>obs := Some \<lparr>threshold = th, targets = []\<rparr>\<rparr>)
      | Absent \<Rightarrow> Inl ReferenceError
      | Throwing \<Rightarrow> Inl ConstructorError)"

subsection \<open>The observer callback\<close>

text \<open>
  \<^verbatim>\<open>entries.forEach((e) => { if (e.isIntersecting) {
       setTimeout(() => setVisible(true), delay); obs.disconnect(); } })\<close>
\<close>

definition on_entry :: "number \<Rightarrow> IntersectionObserverEntry \<Rightarrow> reveal_state \<Rightarrow> reveal_state" where
  "on_entry d e s = (if isIntersecting e then disconnect (setTimeout d s) else s)"

definition callback :: "number \<Rightarrow> IntersectionObserverEntry list \<Rightarrow> reveal_state \<Rightarrow> reveal_state" where
  "callback d entries s = fold (on_entry d) entries s"

subsection \<open>The effect and its cleanup\<close>

text \<open>\<open>window.matchMedia?.("(prefers-reduced-motion: reduce)").matches\<close>: undefined, hence
  falsy, where \<open>matchMedia\<close> is missing.\<close>

definition prefersReduced :: "env \<Rightarrow> bool" where
  "prefersReduced e = (case matchMedia e of None \<Rightarrow> False | Some m \<Rightarrow> m)"

text \<open>
  The body of \<open>useEffect\<close>, in the order of the source: the reduced-motion branch, the
  null check of the ref, the construction of the observer with \<open>threshold: 0.2\<close>,
  \<open>obs.observe(el)\<close>, and the returned cleanup. An exception of the constructor is not
  caught in the source, so it is the result of the effect.
\<close>

definition effect :: "env \<Rightarrow> number \<Rightarrow> reveal_state \<Rightarrow> error + reveal_state" where
  "effect e d s =
     (if prefersReduced e then Inr (setVisible True s)
      else case ref_current e of
             None \<Rightarrow> Inr s
           | Some el \<Rightarrow>
               (case new_IntersectionObserver e (1 / 5) s of
                  Inl err \<Rightarrow> Inl err
                | Inr s' \<Rightarrow> Inr ((observe el s')\<lparr>cleanup := True\<rparr>)))"

definition mount :: "env \<Rightarrow> RevealProp \<Rightarrow> error + reveal_state" where
  "mount e p = effect e (delay_of p) initial"

text \<open>
  Unmounting runs the cleanup \<open>() => obs.disconnect()\<close> where the effect returned one.
  The cleanup cancels no timer: a timeout that is pending at unmount still runs its
  \<open>setVisible(true)\<close> later. The model records that call in \<open>visible\<close> like any other;
  what React does with a state update of a component it has unmounted is outside the
  model.
\<close>

definition unmount :: "reveal_state \<Rightarrow> reveal_state" where
  "unmount s = (if cleanup s then disconnect s else s)"

subsection \<open>Events of the hosting environment\<close>

text \<open>
  An observer invokes its callback only while it observes a target: after
  \<open>disconnect()\<close> it reports nothing more. The entries of one invocation were all queued
  before it, so the \<open>forEach\<close> walks the whole batch even when an early entry disconnects.
\<close>

definition observing :: "reveal_state \<Rightarrow> bool" where
  "observing s = (case obs s of None \<Rightarrow> False | Some ob \<Rightarrow> targets ob \<noteq> [])"

text \<open>
  The entry an observer forms for a target whose measured intersection ratio is \<open>r\<close>:
  the flag \<open>isIntersecting\<close> says whether the ratio is at or above the observer's
  threshold. The entries of an event are entries of this form; what does not depend on
  how the flag was set is proved for every list of entries.
\<close>

definition report :: "IntersectionObserver \<Rightarrow> rat \<Rightarrow> IntersectionObserverEntry" where
  "report ob r = \<lparr>isIntersecting = (threshold ob \<le> r), intersectionRatio = r\<rparr>"

definition deliver :: "number \<Rightarrow> IntersectionObserverEntry list \<Rightarrow> reveal_state \<Rightarrow> reveal_state" where
  "deliver d entries s = (if observing s then callback d entries s else s)"

text \<open>
  The clock moves on by \<open>n\<close> ms and every timeout that is due by then runs its callback
  \<open>setVisible(true)\<close>. A timeout never runs inside the call that set it: also with
  \<open>delay = 0\<close> it waits for the next turn of the clock (\<open>Advance 0\<close>).
\<close>

definition advance :: "nat \<Rightarrow> reveal_state \<Rightarrow> reveal_state" where
  "advance n s =
     (let t = now s + n
      in fold (\<lambda>due. setVisible True) (filter (\<lambda>due. due \<le> t) (timers s))
           (s\<lparr>now := t, timers := filter (\<lambda>due. \<not> due \<le> t) (timers s)\<rparr>))"

datatype event = Intersect "IntersectionObserverEntry list" | Advance nat | Unmount

fun step :: "number \<Rightarrow> event \<Rightarrow> reveal_state \<Rightarrow> reveal_state" where
  "step d (Intersect entries) s = deliver d entries s"
| "step d (Advance n) s = advance n s"
| "step d Unmount s = unmount s"

definition run :: "number \<Rightarrow> event list \<Rightarrow> reveal_state \<Rightarrow> reveal_state" where
  "run d es s = fold (step d) es s"

text \<open>The successive values of \<open>visible\<close> along a run, the starting state included.\<close>

fun trace :: "number \<Rightarrow> event list \<Rightarrow> reveal_state \<Rightarrow> bool list" where
  "trace d [] s = [visible s]"
| "trace d (e # es) s = visible s # trace d es (step d e s)"

text \<open>Numbers of false-to-true and of true-to-false changes in a list of flags.\<close>

fun rises :: "bool list \<Rightarrow> nat" where
  "rises (a # b # bs) = (if \<not> a \<and> b then 1 else 0) + rises (b # bs)"
| "rises bs = 0"

fun falls :: "bool list \<Rightarrow> nat" where
  "falls (a # b # bs) = (if a \<and> \<not> b then 1 else 0) + falls (b # bs)"
| "falls bs = 0"

subsection \<open>Rendering\<close>

text \<open>
  \<open>cn = (...classes) => classes.filter(Boolean).join(" ")\<close> over arguments of type
  \<open>string | undefined | null | false\<close>. \<open>Boolean\<close> keeps the non-empty strings.
\<close>

datatype class_arg = Str string | Undefined | Null | FalseArg

fun truthy :: "class_arg \<Rightarrow> bool" where
  "truthy (Str s) = (s \<noteq> [])"
| "truthy _ = False"

fun to_string :: "class_arg \<Rightarrow> string" where
  "to_string (Str s) = s"
| "to_string FalseArg = ''false''"
| "to_string _ = ''''"

fun join :: "string \<Rightarrow> class_arg list \<Rightarrow> string" where
  "join sep [] = ''''"
| "join sep [x] = to_string x"
| "join sep (x # y # ys) = to_string x @ sep @ join sep (y # ys)"

definition cn :: "class_arg list \<Rightarrow> string" where
  "cn classes = join '' '' (filter truthy classes)"

text \<open>The \<open>className\<close> of the rendered container \<open>div\<close>.\<close>

definition render :: "RevealProp \<Rightarrow> bool \<Rightarrow> string" where
  "render p vis =
     cn [Str ''transform transition-all duration-500 ease-out will-change-[opacity,transform]'',
         Str (if vis then ''opacity-100 translate-y-0'' else ''opacity-0 translate-y-3''),
         Str (className_of p)]"

subsection \<open>Reference behaviour and sample inputs\<close>

text \<open>
  The number of timers the first qualifying batch of a run schedules: the first
  intersection event that carries an intersecting entry counts with every intersecting
  entry it carries; events after it, and every event after an unmount, count nothing.
\<close>

fun first_batch :: "event list \<Rightarrow> nat" where
  "first_batch [] = 0"
| "first_batch (Intersect entries # es) =
     (if filter isIntersecting entries = [] then first_batch es
      else length (filter isIntersecting entries))"
| "first_batch (Advance n # es) = first_batch es"
| "first_batch (Unmount # es) = 0"

text \<open>
  The invariant of an instance whose observer still observes: nothing has been scheduled
  or shown yet, and the cleanup is in place.
\<close>

definition waiting :: "reveal_state \<Rightarrow> bool" where
  "waiting s = (observing s \<longrightarrow> \<not> visible s \<and> timers s = [] \<and> timer_count s = 0 \<and> cleanup s)"

text \<open>
  The invariant of an instance after its qualifying callback, whose timers are due at
  \<open>due\<close>: the observer is released, every pending timer is due at \<open>due\<close>, and either
  \<open>visible\<close> is set and the clock has reached \<open>due\<close>, or a timer is still pending.
\<close>

definition firing :: "nat \<Rightarrow> reveal_state \<Rightarrow> bool" where
  "firing due s = (\<not> observing s \<and> set (timers s) \<subseteq> {due}
     \<and> (if visible s then due \<le> now s else timers s \<noteq> []))"

text \<open>The state right after a mount that observes the element \<open>el\<close>.\<close>

definition armed :: "element \<Rightarrow> reveal_state" where
  "armed el = initial\<lparr>obs := Some \<lparr>threshold = 1 / 5, targets = [el]\<rparr>, cleanup := True\<rparr>"

text \<open>Sample environments, props and entries.\<close>

definition env_motion :: env where
  "env_motion = \<lparr>matchMedia = Some False, ref_current = Some 7, intersectionObserver = Available\<rparr>"

definition env_reduced :: env where
  "env_reduced = \<lparr>matchMedia = Some True, ref_current = Some 7, intersectionObserver = Available\<rparr>"

definition env_no_element :: env where
  "env_no_element = \<lparr>matchMedia = Some False, ref_current = None, intersectionObserver = Available\<rparr>"

definition env_no_observer :: env where
  "env_no_observer = \<lparr>matchMedia = None, ref_current = Some 7, intersectionObserver = Absent\<rparr>"

definition env_throwing :: env where
  "env_throwing = \<lparr>matchMedia = Some False, ref_current = Some 7, intersectionObserver = Throwing\<rparr>"

definition props_80 :: RevealProp where
  "props_80 = \<lparr>className = None, delay = Some (Num 80)\<rparr>"

definition props_default :: RevealProp where
  "props_default = \<lparr>className = Some ''mt-5'', delay = None\<rparr>"

definition observer_7 :: IntersectionObserver where
  "observer_7 = \<lparr>threshold = 1 / 5, targets = [7]\<rparr>"

definition entry_25 :: IntersectionObserverEntry where
  "entry_25 = \<lparr>isIntersecting = True, intersectionRatio = 1 / 4\<rparr>"

definition entry_out :: IntersectionObserverEntry where
  "entry_out = \<lparr>isIntersecting = False, intersectionRatio = 0\<rparr>"

lemmas sample_defs =
  env_motion_def env_reduced_def env_no_element_def env_no_observer_def env_throwing_def
  props_80_def props_default_def entry_25_def entry_out_def

section \<open>Properties\<close>

subsection \<open>What the callback changes\<close>

lemma on_entry_fields [simp]:
  "visible (on_entry d x s) = visible s"
  "now (on_entry d x s) = now s"
  "cleanup (on_entry d x s) = cleanup s"
  by (simp_all add: on_entry_def disconnect_def setTimeout_def)

lemma callback_visible [simp]: "visible (callback d xs s) = visible s"
  unfolding callback_def by (induction xs arbitrary: s) simp_all

lemma callback_now [simp]: "now (callback d xs s) = now s"
  unfolding callback_def by (induction xs arbitrary: s) simp_all

lemma callback_cleanup [simp]: "cleanup (callback d xs s) = cleanup s"
  unfolding callback_def by (induction xs arbitrary: s) simp_all

lemma on_entry_timer_count:
  "timer_count (on_entry d x s) = timer_count s + (if isIntersecting x then 1 else 0)"
  by (simp add: on_entry_def disconnect_def setTimeout_def)

lemma on_entry_timers:
  "timers (on_entry d x s) = timers s @ (if isIntersecting x then [now s + timeout_ms d] else [])"
  by (simp add: on_entry_def disconnect_def setTimeout_def)

lemma callback_timer_count:
  "timer_count (callback d xs s) = timer_count s + length (filter isIntersecting xs)"
  unfolding callback_def
  by (induction xs arbitrary: s) (simp_all add: on_entry_timer_count)

lemma callback_timers:
  "timers (callback d xs s)
     = timers s @ replicate (length (filter isIntersecting xs)) (now s + timeout_ms d)"
  unfolding callback_def
  by (induction xs arbitrary: s) (simp_all add: on_entry_timers)

lemma on_entry_skip: "\<not> isIntersecting x \<Longrightarrow> on_entry d x s = s"
  by (simp add: on_entry_def)

lemma callback_none: "filter isIntersecting xs = [] \<Longrightarrow> callback d xs s = s"
  unfolding callback_def
  by (induction xs arbitrary: s) (simp_all add: on_entry_skip split: if_splits)

lemma observing_disconnect [simp]: "\<not> observing (disconnect s)"
  by (simp add: observing_def disconnect_def split: option.splits)

lemma callback_releases:
  "filter isIntersecting xs \<noteq> [] \<Longrightarrow> \<not> observing (callback d xs s)"
  unfolding callback_def
proof (induction xs arbitrary: s rule: rev_induct)
  case Nil
  then show ?case by simp
next
  case (snoc x xs)
  show ?case
  proof (cases "isIntersecting x")
    case True
    then show ?thesis by (simp add: on_entry_def)
  next
    case False
    with snoc show ?thesis by (simp add: on_entry_def)
  qed
qed

subsection \<open>What the clock changes\<close>

lemma fold_setVisible:
  "fold (\<lambda>due. setVisible True) ds s = (if ds = [] then s else s\<lparr>visible := True\<rparr>)"
  by (induction ds arbitrary: s) (simp_all add: setVisible_def)

lemma advance_fields [simp]:
  "now (advance n s) = now s + n"
  "timers (advance n s) = filter (\<lambda>due. \<not> due \<le> now s + n) (timers s)"
  "obs (advance n s) = obs s"
  "cleanup (advance n s) = cleanup s"
  "timer_count (advance n s) = timer_count s"
  by (simp_all add: advance_def Let_def fold_setVisible)

lemma advance_visible:
  "visible (advance n s) = (visible s \<or> (\<exists>due \<in> set (timers s). due \<le> now s + n))"
  by (auto simp: advance_def Let_def fold_setVisible filter_empty_conv)

lemma observing_advance [simp]: "observing (advance n s) = observing s"
  by (simp add: observing_def)

subsection \<open>What the cleanup changes\<close>

lemma unmount_fields [simp]:
  "visible (unmount s) = visible s"
  "now (unmount s) = now s"
  "timers (unmount s) = timers s"
  "timer_count (unmount s) = timer_count s"
  "cleanup (unmount s) = cleanup s"
  by (simp_all add: unmount_def disconnect_def)

lemma not_observing_unmount: "\<not> observing s \<Longrightarrow> \<not> observing (unmount s)"
  by (simp add: unmount_def)

lemma unmount_releases: "cleanup s \<Longrightarrow> \<not> observing (unmount s)"
  by (simp add: unmount_def)

subsection \<open>Steps and runs\<close>

lemma run_Nil [simp]: "run d [] s = s"
  by (simp add: run_def)

lemma run_Cons [simp]: "run d (x # xs) s = run d xs (step d x s)"
  by (simp add: run_def)

lemma run_append: "run d (xs @ ys) s = run d ys (run d xs s)"
  by (simp add: run_def)

lemma step_cleanup [simp]: "cleanup (step d x s) = cleanup s"
  by (cases x) (simp_all add: deliver_def)

lemma run_cleanup [simp]: "cleanup (run d xs s) = cleanup s"
  by (induction xs arbitrary: s) simp_all

lemma step_visible_mono: "visible s \<Longrightarrow> visible (step d x s)"
  by (cases x) (simp_all add: deliver_def advance_visible)

lemma run_visible_mono: "visible s \<Longrightarrow> visible (run d xs s)"
  by (induction xs arbitrary: s) (simp_all add: step_visible_mono)

lemma step_not_observing: "\<not> observing s \<Longrightarrow> \<not> observing (step d x s)"
  by (cases x) (simp_all add: deliver_def not_observing_unmount)

lemma run_not_observing: "\<not> observing s \<Longrightarrow> \<not> observing (run d xs s)"
  by (induction xs arbitrary: s) (simp_all add: step_not_observing)

lemma step_idle_timer_count: "\<not> observing s \<Longrightarrow> timer_count (step d x s) = timer_count s"
  by (cases x) (simp_all add: deliver_def)

lemma run_idle_timer_count: "\<not> observing s \<Longrightarrow> timer_count (run d xs s) = timer_count s"
  by (induction xs arbitrary: s) (simp_all add: step_not_observing step_idle_timer_count)

subsection \<open>The four outcomes of the mount effect\<close>

lemma mount_reduced:
  "prefersReduced e \<Longrightarrow> mount e p = Inr (initial\<lparr>visible := True\<rparr>)"
  by (simp add: mount_def effect_def setVisible_def)

lemma mount_no_element:
  "\<not> prefersReduced e \<Longrightarrow> ref_current e = None \<Longrightarrow> mount e p = Inr initial"
  by (simp add: mount_def effect_def)

lemma mount_observes:
  "\<not> prefersReduced e \<Longrightarrow> ref_current e = Some el \<Longrightarrow> intersectionObserver e = Available \<Longrightarrow>
   mount e p = Inr (armed el)"
  by (simp add: mount_def effect_def new_IntersectionObserver_def observe_def armed_def)

lemma mount_throws:
  "\<not> prefersReduced e \<Longrightarrow> ref_current e = Some el \<Longrightarrow> intersectionObserver e \<noteq> Available \<Longrightarrow>
   mount e p = Inl (if intersectionObserver e = Absent then ReferenceError else ConstructorError)"
  by (cases "intersectionObserver e")
    (simp_all add: mount_def effect_def new_IntersectionObserver_def)

lemma mount_cases:
  assumes "mount e p = Inr s"
  shows "s = initial\<lparr>visible := True\<rparr> \<and> prefersReduced e
       \<or> s = initial \<and> \<not> prefersReduced e \<and> ref_current e = None
       \<or> (\<exists>el. s = armed el \<and> \<not> prefersReduced e \<and> ref_current e = Some el
             \<and> intersectionObserver e = Available)"
proof (cases "prefersReduced e")
  case True
  with assms show ?thesis by (simp add: mount_reduced)
next
  case False
  show ?thesis
  proof (cases "ref_current e")
    case None
    with False assms show ?thesis by (simp add: mount_no_element)
  next
    case (Some el)
    show ?thesis
    proof (cases "intersectionObserver e = Available")
      case True
      with False Some assms show ?thesis by (simp add: mount_observes)
    next
      case no: False
      with False Some assms show ?thesis by (simp add: mount_throws)
    qed
  qed
qed

lemma initial_fields [simp]:
  "visible initial = False" "obs initial = None" "cleanup initial = False"
  "timers initial = []" "timer_count initial = 0" "now initial = 0"
  by (simp_all add: initial_def)

lemma armed_fields [simp]:
  "visible (armed el) = False" "obs (armed el) = Some \<lparr>threshold = 1 / 5, targets = [el]\<rparr>"
  "cleanup (armed el) = True" "timers (armed el) = []" "timer_count (armed el) = 0"
  "now (armed el) = 0"
  by (simp_all add: armed_def)

lemma observing_armed [simp]: "observing (armed el)"
  by (simp add: observing_def)

lemma observing_initial [simp]: "\<not> observing initial"
  by (simp add: observing_def)

subsection \<open>Instances without an observer\<close>

lemma step_inert:
  assumes "obs s = None" "timers s = []"
  shows "obs (step d x s) = None \<and> timers (step d x s) = []
       \<and> visible (step d x s) = visible s \<and> timer_count (step d x s) = timer_count s"
proof (cases x)
  case (Intersect entries)
  with assms show ?thesis by (simp add: deliver_def observing_def)
next
  case (Advance n)
  with assms show ?thesis by (simp add: advance_visible)
next
  case Unmount
  with assms show ?thesis by (simp add: unmount_def disconnect_def)
qed

lemma run_inert:
  "obs s = None \<Longrightarrow> timers s = [] \<Longrightarrow>
   obs (run d xs s) = None \<and> timers (run d xs s) = []
   \<and> visible (run d xs s) = visible s \<and> timer_count (run d xs s) = timer_count s"
proof (induction xs arbitrary: s)
  case Nil
  then show ?case by simp
next
  case (Cons x xs)
  from step_inert [OF Cons.prems, of d x] Cons.IH [of "step d x s"]
  show ?case by simp
qed

subsection \<open>While the observer observes\<close>

lemma deliver_observing:
  "observing s \<Longrightarrow> filter isIntersecting entries = [] \<Longrightarrow> deliver d entries s = s"
  by (simp add: deliver_def callback_none)

lemma deliver_releases:
  "filter isIntersecting entries \<noteq> [] \<Longrightarrow> \<not> observing (deliver d entries s)"
  by (simp add: deliver_def callback_releases)

lemma step_waiting: "waiting s \<Longrightarrow> waiting (step d x s)"
proof (cases x)
  case (Intersect entries)
  assume w: "waiting s"
  show ?thesis
  proof (cases "observing s \<and> filter isIntersecting entries = []")
    case True
    with w Intersect show ?thesis by (simp add: deliver_observing)
  next
    case False
    then have "\<not> observing (deliver d entries s)"
      by (auto simp: deliver_releases) (simp add: deliver_def)
    with Intersect show ?thesis by (simp add: waiting_def)
  qed
next
  case (Advance n)
  assume "waiting s"
  with Advance show ?thesis by (simp add: waiting_def advance_visible)
next
  case Unmount
  assume w: "waiting s"
  show ?thesis
  proof (cases "observing s")
    case True
    with w have "cleanup s" by (simp add: waiting_def)
    then have "\<not> observing (unmount s)" by (rule unmount_releases)
    with Unmount show ?thesis by (simp add: waiting_def)
  next
    case False
    then have "\<not> observing (unmount s)" by (rule not_observing_unmount)
    with Unmount show ?thesis by (simp add: waiting_def)
  qed
qed

lemma run_waiting: "waiting s \<Longrightarrow> waiting (run d xs s)"
  by (induction xs arbitrary: s) (simp_all add: step_waiting)

lemma mount_waiting: "mount e p = Inr s \<Longrightarrow> waiting s"
  using mount_cases [of e p s] by (auto simp: waiting_def observing_def)

lemma mount_observing_cleanup: "mount e p = Inr s \<Longrightarrow> observing s \<Longrightarrow> cleanup s"
  using mount_waiting [of e p s] by (simp add: waiting_def)

subsection \<open>Counting timers\<close>

lemma run_timer_count:
  "cleanup s \<Longrightarrow>
   timer_count (run d es s) = timer_count s + (if observing s then first_batch es else 0)"
proof (induction es arbitrary: s)
  case Nil
  show ?case by simp
next
  case (Cons x es)
  show ?case
  proof (cases "observing s")
    case False
    then show ?thesis using run_idle_timer_count [of s d "x # es"] by simp
  next
    case True
    show ?thesis
    proof (cases x)
      case (Intersect entries)
      show ?thesis
      proof (cases "filter isIntersecting entries = []")
        case True
        with \<open>observing s\<close> Intersect Cons.IH [OF Cons.prems] show ?thesis
          by (simp add: deliver_observing)
      next
        case False
        then have "\<not> observing (deliver d entries s)" by (rule deliver_releases)
        then have "timer_count (run d es (deliver d entries s)) = timer_count (deliver d entries s)"
          by (rule run_idle_timer_count)
        with \<open>observing s\<close> Intersect False show ?thesis
          by (simp add: deliver_def callback_timer_count)
      qed
    next
      case (Advance n)
      with True Cons.IH [of "advance n s"] Cons.prems show ?thesis by simp
    next
      case Unmount
      from Cons.prems have "\<not> observing (unmount s)" by (rule unmount_releases)
      then have "timer_count (run d es (unmount s)) = timer_count (unmount s)"
        by (rule run_idle_timer_count)
      with True Unmount show ?thesis by simp
    qed
  qed
qed

lemma first_batch_single:
  "(\<forall>entries. Intersect entries \<in> set es \<longrightarrow> length (filter isIntersecting entries) \<le> 1)
   \<Longrightarrow> first_batch es \<le> 1"
  by (induction es rule: first_batch.induct) auto

lemma mount_timer_count:
  assumes "mount e p = Inr s0"
  shows "timer_count (run d es s0) = (if observing s0 then first_batch es else 0)"
proof (cases "observing s0")
  case True
  with assms have "cleanup s0" by (simp add: mount_observing_cleanup)
  moreover from assms True have "timer_count s0 = 0"
    using mount_waiting [of e p s0] by (simp add: waiting_def)
  ultimately show ?thesis using run_timer_count [of s0 d es] by simp
next
  case False
  moreover from assms have "timer_count s0 = 0"
    using mount_cases [of e p s0] by auto
  ultimately show ?thesis using run_idle_timer_count [of s0 d es] by simp
qed

subsection \<open>The sample inputs\<close>

lemma prefersReduced_samples [simp]:
  "\<not> prefersReduced env_motion" "prefersReduced env_reduced"
  "\<not> prefersReduced env_no_element" "\<not> prefersReduced env_no_observer"
  by (simp_all add: prefersReduced_def sample_defs)

lemma mount_env_motion: "mount env_motion p = Inr (armed 7)"
  by (rule mount_observes) (simp_all add: env_motion_def prefersReduced_def)

lemma mount_env_no_element: "mount env_no_element p = Inr initial"
  by (rule mount_no_element) (simp_all add: env_no_element_def prefersReduced_def)

lemma timeout_ms_80 [simp]: "timeout_ms (Num 80) = 80"
  by (simp add: timeout_ms_def Let_def)

lemma delay_of_samples [simp]: "delay_of props_80 = Num 80" "delay_of props_default = Num 0"
  by (simp_all add: delay_of_def sample_defs)

subsection \<open>The latch\<close>

lemma trace_Cons: "\<exists>bs. trace d es s = visible s # bs"
  by (cases es) simp_all

lemma trace_visible:
  "visible s \<Longrightarrow> rises (trace d es s) = 0 \<and> falls (trace d es s) = 0"
proof (induction es arbitrary: s)
  case Nil
  show ?case by simp
next
  case (Cons x es)
  from Cons.prems have v: "visible (step d x s)" by (rule step_visible_mono)
  obtain bs where bs: "trace d es (step d x s) = visible (step d x s) # bs"
    using trace_Cons by blast
  from Cons.IH [OF v] bs v Cons.prems show ?case by simp
qed

lemma trace_latch: "rises (trace d es s) \<le> 1 \<and> falls (trace d es s) = 0"
proof (induction es arbitrary: s)
  case Nil
  show ?case by simp
next
  case (Cons x es)
  obtain bs where bs: "trace d es (step d x s) = visible (step d x s) # bs"
    using trace_Cons by blast
  show ?case
  proof (cases "visible (step d x s)")
    case True
    from trace_visible [OF True, of d es] bs True show ?thesis by simp
  next
    case False
    then have "\<not> visible s" using step_visible_mono by blast
    with Cons.IH [of "step d x s"] bs False show ?thesis by simp
  qed
qed

lemma waiting_visible: "waiting s \<Longrightarrow> visible s \<Longrightarrow> \<not> observing s"
  by (auto simp: waiting_def)

subsection \<open>After the qualifying callback\<close>

lemma step_firing: "firing due s \<Longrightarrow> firing due (step d x s)"
proof (cases x)
  case (Intersect entries)
  assume "firing due s"
  with Intersect show ?thesis by (simp add: firing_def deliver_def)
next
  case (Advance n)
  assume f: "firing due s"
  show ?thesis
  proof (cases "due \<le> now s + n")
    case True
    with f Advance show ?thesis
      by (auto simp: firing_def advance_visible split: if_splits)
  next
    case False
    with f have "filter (\<lambda>t. \<not> t \<le> now s + n) (timers s) = timers s"
      by (auto simp: firing_def filter_id_conv)
    with f False Advance show ?thesis
      by (auto simp: firing_def advance_visible split: if_splits)
  qed
next
  case Unmount
  assume "firing due s"
  with Unmount show ?thesis by (simp add: firing_def not_observing_unmount)
qed

lemma run_firing: "firing due s \<Longrightarrow> firing due (run d xs s)"
  by (induction xs arbitrary: s) (simp_all add: step_firing)

lemma firing_early: "firing due s \<Longrightarrow> now s < due \<Longrightarrow> \<not> visible s"
  by (auto simp: firing_def split: if_splits)

lemma sole_timer: "set ts \<subseteq> {due} \<Longrightarrow> ts \<noteq> [] \<Longrightarrow> due \<in> set ts"
  by (cases ts) auto

lemma firing_advance:
  assumes "firing due s" "due \<le> now s + n"
  shows "visible (advance n s)"
proof (cases "visible s")
  case True
  then show ?thesis by (simp add: advance_visible)
next
  case False
  with assms(1) have "due \<in> set (timers s)"
    by (simp add: firing_def sole_timer)
  with assms(2) show ?thesis by (auto simp: advance_visible)
qed

lemma deliver_fires:
  assumes "waiting s" "observing s" "filter isIntersecting entries \<noteq> []"
  shows "firing (now s + timeout_ms d) (deliver d entries s)"
proof -
  from assms have t: "timers (deliver d entries s)
      = replicate (length (filter isIntersecting entries)) (now s + timeout_ms d)"
    by (simp add: deliver_def callback_timers waiting_def)
  from assms have v: "\<not> visible (deliver d entries s)"
    by (simp add: deliver_def waiting_def)
  from assms(3) have r: "\<not> observing (deliver d entries s)" by (rule deliver_releases)
  from assms(3) t v r show ?thesis by (auto simp: firing_def)
qed


lemma firing_late: "firing due s \<Longrightarrow> visible s \<Longrightarrow> due \<le> now s"
  by (auto simp: firing_def split: if_splits)

lemma step_not_yet:
  assumes "firing due s" "\<not> visible s \<longrightarrow> now s < due"
  shows "\<not> visible (step d x s) \<longrightarrow> now (step d x s) < due"
proof (cases x)
  case (Intersect entries)
  with assms show ?thesis by (simp add: firing_def deliver_def)
next
  case (Advance n)
  show ?thesis
  proof (cases "due \<le> now s + n")
    case True
    with assms(1) have "visible (advance n s)" by (rule firing_advance)
    with Advance show ?thesis by simp
  next
    case False
    with Advance show ?thesis by simp
  qed
next
  case Unmount
  with assms show ?thesis by simp
qed

lemma run_not_yet:
  "firing due s \<Longrightarrow> \<not> visible s \<longrightarrow> now s < due \<Longrightarrow>
   \<not> visible (run d xs s) \<longrightarrow> now (run d xs s) < due"
proof (induction xs arbitrary: s)
  case Nil
  then show ?case by simp
next
  case (Cons x xs)
  from Cons.prems have "firing due (step d x s)" by (simp add: step_firing)
  moreover from Cons.prems have "\<not> visible (step d x s) \<longrightarrow> now (step d x s) < due"
    by (rule step_not_yet)
  ultimately show ?case using Cons.IH [of "step d x s"] by simp
qed

subsection \<open>Before the first qualifying entry\<close>

lemma deliver_skip: "filter isIntersecting entries = [] \<Longrightarrow> deliver d entries s = s"
  by (simp add: deliver_def callback_none)

lemma run_quiet:
  assumes "timers s = []" "Unmount \<notin> set es"
    "\<forall>entries. Intersect entries \<in> set es \<longrightarrow> (\<forall>x \<in> set entries. \<not> isIntersecting x)"
  shows "obs (run d es s) = obs s \<and> timers (run d es s) = [] \<and> visible (run d es s) = visible s
       \<and> timer_count (run d es s) = timer_count s"
  using assms
proof (induction es arbitrary: s)
  case Nil
  then show ?case by simp
next
  case (Cons x es)
  have step: "obs (step d x s) = obs s \<and> timers (step d x s) = []
       \<and> visible (step d x s) = visible s \<and> timer_count (step d x s) = timer_count s"
  proof (cases x)
    case (Intersect entries)
    with Cons.prems(3) have "filter isIntersecting entries = []"
      by (auto simp: filter_empty_conv)
    with Intersect Cons.prems(1) show ?thesis by (simp add: deliver_skip)
  next
    case (Advance n)
    with Cons.prems(1) show ?thesis by (simp add: advance_visible)
  next
    case Unmount
    with Cons.prems(2) show ?thesis by simp
  qed
  moreover from Cons.prems have "Unmount \<notin> set es"
    "\<forall>entries. Intersect entries \<in> set es \<longrightarrow> (\<forall>x \<in> set entries. \<not> isIntersecting x)"
    by simp_all
  ultimately show ?case using Cons.IH [of "step d x s"] by simp
qed

lemma step_idle:
  assumes "\<not> observing s" "timers s = []"
  shows "\<not> observing (step d x s) \<and> timers (step d x s) = [] \<and> visible (step d x s) = visible s"
proof (cases x)
  case (Intersect entries)
  with assms show ?thesis by (simp add: deliver_def)
next
  case (Advance n)
  with assms show ?thesis by (simp add: advance_visible)
next
  case Unmount
  with assms show ?thesis by (simp add: not_observing_unmount)
qed

lemma run_idle:
  "\<not> observing s \<Longrightarrow> timers s = [] \<Longrightarrow> visible (run d es s) = visible s"
proof (induction es arbitrary: s)
  case Nil
  show ?case by simp
next
  case (Cons x es)
  from step_idle [OF Cons.prems, of d x] Cons.IH [of "step d x s"] show ?case by simp
qed

lemma mount_timers: "mount e p = Inr s \<Longrightarrow> timers s = []"
  using mount_cases [of e p s] by auto

lemma mount_cleanup_obs: "mount e p = Inr s \<Longrightarrow> \<not> cleanup s \<Longrightarrow> obs s = None"
  using mount_cases [of e p s] by auto

lemma disconnect_None: "obs s = None \<Longrightarrow> disconnect s = s"
  by (simp add: disconnect_def)

subsection \<open>The timeout the host reads from the delay\<close>

lemma timeout_ms_whole: "n < 2147483648 \<Longrightarrow> timeout_ms (Num (of_nat n)) = n"
  by (simp add: timeout_ms_def Let_def)

lemma timeout_ms_out_of_range:
  "timeout_ms (Num 2147483648) = 0" "timeout_ms (Num (1 / 2)) = 0" "timeout_ms (Num (- 5)) = 0"
  "timeout_ms NaN = 0" "timeout_ms PosInfinity = 0"
  by (simp_all add: timeout_ms_def Let_def)

subsection \<open>The entries an observer reports\<close>

lemma isIntersecting_report [simp]: "isIntersecting (report ob r) = (threshold ob \<le> r)"
  by (simp add: report_def)

lemma sample_entries_reported:
  "entry_25 = report observer_7 (1 / 4)" "entry_out = report observer_7 0"
  by (simp_all add: report_def observer_7_def entry_25_def entry_out_def)

lemma reported_intersecting:
  "(filter isIntersecting (map (report ob) rs) \<noteq> []) = (\<exists>r \<in> set rs. threshold ob \<le> r)"
  by (auto simp: filter_empty_conv)

lemma on_entry_threshold:
  "map_option threshold (obs (on_entry d x s)) = map_option threshold (obs s)"
  by (simp add: on_entry_def disconnect_def setTimeout_def option.map_comp comp_def)

lemma callback_threshold:
  "map_option threshold (obs (callback d xs s)) = map_option threshold (obs s)"
  unfolding callback_def by (induction xs arbitrary: s) (simp_all add: on_entry_threshold)

lemma step_threshold:
  "map_option threshold (obs (step d x s)) = map_option threshold (obs s)"
proof (cases x)
  case (Intersect entries)
  then show ?thesis by (simp add: deliver_def callback_threshold)
next
  case (Advance n)
  then show ?thesis by simp
next
  case Unmount
  then show ?thesis by (simp add: unmount_def disconnect_def option.map_comp comp_def)
qed

lemma run_threshold:
  "map_option threshold (obs (run d xs s)) = map_option threshold (obs s)"
  by (induction xs arbitrary: s) (simp_all add: step_threshold)

lemma mount_threshold:
  assumes "mount e p = Inr s0" "obs (run d xs s0) = Some ob"
  shows "threshold ob = 1 / 5"
proof -
  from assms(2) have "map_option threshold (obs s0) = Some (threshold ob)"
    using run_threshold [of d xs s0] by simp
  with assms(1) show ?thesis using mount_cases [of e p s0] by auto
qed

lemma deliver_triggers:
  "observing s \<Longrightarrow> timers s = [] \<Longrightarrow>
   (timers (deliver d entries s) \<noteq> []) = (filter isIntersecting entries \<noteq> [])"
  by (simp add: deliver_def callback_timers)

lemma deliver_releases_iff:
  "observing s \<Longrightarrow> (\<not> observing (deliver d entries s)) = (filter isIntersecting entries \<noteq> [])"
  by (cases "filter isIntersecting entries = []") (simp_all add: deliver_skip deliver_releases)

subsection \<open>From the qualifying callback to the timeout\<close>

lemma after_callback:
  assumes "waiting s" "observing s" "filter isIntersecting entries \<noteq> []"
  shows "now (run d after (deliver d entries s)) < now s + timeout_ms d
           \<Longrightarrow> \<not> visible (run d after (deliver d entries s))"
    and "now s + timeout_ms d \<le> now (run d after (deliver d entries s)) + k
           \<Longrightarrow> visible (run d later (advance k (run d after (deliver d entries s))))"
    and "0 < timeout_ms d
           \<Longrightarrow> visible (run d after (deliver d entries s))
                 = (now s + timeout_ms d \<le> now (run d after (deliver d entries s)))"
proof -
  let ?due = "now s + timeout_ms d"
  let ?s1 = "deliver d entries s"
  from assms have f: "firing ?due ?s1" by (rule deliver_fires)
  then have fa: "firing ?due (run d after ?s1)" by (rule run_firing)
  show "\<not> visible (run d after ?s1)" if "now (run d after ?s1) < ?due"
    using fa that by (rule firing_early)
  show "visible (run d later (advance k (run d after ?s1)))"
    if "?due \<le> now (run d after ?s1) + k"
  proof -
    from fa that have "visible (advance k (run d after ?s1))" by (rule firing_advance)
    then show ?thesis by (rule run_visible_mono)
  qed
  show "visible (run d after ?s1) = (?due \<le> now (run d after ?s1))" if "0 < timeout_ms d"
  proof -
    have "now ?s1 < ?due" using that by (simp add: deliver_def)
    then have "\<not> visible ?s1 \<longrightarrow> now ?s1 < ?due" by simp
    with f have "\<not> visible (run d after ?s1) \<longrightarrow> now (run d after ?s1) < ?due"
      by (rule run_not_yet)
    moreover have "visible (run d after ?s1) \<longrightarrow> ?due \<le> now (run d after ?s1)"
      using fa by (simp add: firing_late)
    ultimately show ?thesis by auto
  qed
qed

subsection \<open>Claims\<close>

text \<open>
  C1, as stated, fails: a callback invocation that carries two intersecting entries (the
  element came in, went out and came in again before the batch was delivered) schedules
  two timers, since the \<open>forEach\<close> goes on after the first \<open>disconnect()\<close>.
\<close>

theorem two_entries_two_timers:
  "mount env_motion props_80 = Inr (armed 7)
   \<and> timer_count (run (delay_of props_80) [Intersect [entry_25, entry_out, entry_25]] (armed 7)) = 2
   \<and> timers (run (delay_of props_80) [Intersect [entry_25, entry_out, entry_25]] (armed 7))
       = [80, 80]"
  by (simp add: mount_env_motion deliver_def callback_timer_count callback_timers
      entry_25_def entry_out_def)

text \<open>
  C1, amended: along every run of an instance, the timers are scheduled by one callback
  invocation at most, the first one that carries an intersecting entry: it schedules one
  timer for each intersecting entry it carries and releases the observation within the
  same invocation, so that no later event finds the observer observing; an instance
  without an observer schedules none. Hence, when no callback invocation carries more
  than one intersecting entry, at most one timer is ever scheduled.
\<close>

theorem timers_of_first_batch:
  assumes "mount e p = Inr s0"
  shows "timer_count (run (delay_of p) es s0) = (if observing s0 then first_batch es else 0)
       \<and> ((\<forall>entries. Intersect entries \<in> set es \<longrightarrow> length (filter isIntersecting entries) \<le> 1)
            \<longrightarrow> timer_count (run (delay_of p) es s0) \<le> 1)
       \<and> (\<forall>entries later. filter isIntersecting entries \<noteq> []
            \<longrightarrow> \<not> observing (run (delay_of p) (es @ Intersect entries # later) s0))"
proof (intro conjI allI impI)
  show count: "timer_count (run (delay_of p) es s0) = (if observing s0 then first_batch es else 0)"
    using assms by (rule mount_timer_count)
  show "timer_count (run (delay_of p) es s0) \<le> 1"
    if "\<forall>entries. Intersect entries \<in> set es \<longrightarrow> length (filter isIntersecting entries) \<le> 1"
    using first_batch_single [OF that] count by simp
  show "\<not> observing (run (delay_of p) (es @ Intersect entries # later) s0)"
    if "filter isIntersecting entries \<noteq> []" for entries later
  proof -
    have "\<not> observing (deliver (delay_of p) entries (run (delay_of p) es s0))"
      using that by (rule deliver_releases)
    then show ?thesis by (simp add: run_append run_not_observing)
  qed
qed

theorem timers_of_first_batch_witness:
  "mount env_motion props_80 = Inr (armed 7)
   \<and> timer_count (run (Num 80) [Intersect [entry_out], Intersect [entry_25, entry_out, entry_25],
                           Advance 80, Intersect [entry_25]] (armed 7)) = 2
   \<and> timer_count (run (Num 80) [Intersect [entry_out], Intersect [entry_25], Intersect [entry_25]]
                     (armed 7)) \<le> 1
   \<and> \<not> observing (run (Num 80) [Intersect [entry_25], Intersect [entry_25]] (armed 7))"
proof -
  have m: "mount env_motion props_80 = Inr (armed 7)" by (rule mount_env_motion)
  from timers_of_first_batch [OF m, of "[Intersect [entry_out], Intersect [entry_25, entry_out, entry_25],
                           Advance 80, Intersect [entry_25]]"]
  have a: "timer_count (run (Num 80) [Intersect [entry_out], Intersect [entry_25, entry_out, entry_25],
                           Advance 80, Intersect [entry_25]] (armed 7)) = 2"
    by (simp add: sample_defs delay_of_def)
  from timers_of_first_batch [OF m, of "[Intersect [entry_out], Intersect [entry_25], Intersect [entry_25]]"]
  have b: "timer_count (run (Num 80) [Intersect [entry_out], Intersect [entry_25], Intersect [entry_25]]
                     (armed 7)) \<le> 1"
    by (simp add: sample_defs delay_of_def)
  from timers_of_first_batch [OF m, of "[]"]
  have "\<forall>entries later. filter isIntersecting entries \<noteq> []
            \<longrightarrow> \<not> observing (run (Num 80) ([] @ Intersect entries # later) (armed 7))"
    by simp
  then have "filter isIntersecting [entry_25] \<noteq> []
            \<longrightarrow> \<not> observing (run (Num 80) ([] @ Intersect [entry_25] # [Intersect [entry_25]]) (armed 7))"
    by blast
  then have c: "\<not> observing (run (Num 80) [Intersect [entry_25], Intersect [entry_25]] (armed 7))"
    by (simp add: sample_defs)
  from m a b c show ?thesis by simp
qed

text \<open>
  C2: \<open>visible\<close> is a one-way latch. Along the life of an instance, from the initial
  \<open>useState(false)\<close> through the mount effect and any events, the flag rises from false
  to true at most once and never falls from true to false; and once it is true it stays
  true, the observer never observes again and no further timer is scheduled.
\<close>

theorem visible_is_a_latch:
  assumes "mount e p = Inr s0"
  shows "rises (visible initial # trace (delay_of p) es s0) \<le> 1
       \<and> falls (visible initial # trace (delay_of p) es s0) = 0
       \<and> (\<forall>later. visible (run (delay_of p) es s0) \<longrightarrow>
            visible (run (delay_of p) (es @ later) s0)
            \<and> \<not> observing (run (delay_of p) (es @ later) s0)
            \<and> timer_count (run (delay_of p) (es @ later) s0) = timer_count (run (delay_of p) es s0))"
proof (intro conjI allI impI)
  let ?d = "delay_of p"
  obtain bs where bs: "trace ?d es s0 = visible s0 # bs"
    using trace_Cons by blast
  show "rises (visible initial # trace ?d es s0) \<le> 1"
  proof (cases "visible s0")
    case True
    from trace_visible [OF True, of ?d es] bs show ?thesis by simp
  next
    case False
    with trace_latch [of ?d es s0] bs show ?thesis by simp
  qed
  show "falls (visible initial # trace ?d es s0) = 0"
    using trace_latch [of ?d es s0] bs by simp
next
  fix later
  let ?d = "delay_of p"
  assume v: "visible (run ?d es s0)"
  have "waiting (run ?d es s0)"
    using assms by (simp add: mount_waiting run_waiting)
  then have idle: "\<not> observing (run ?d es s0)" using v by (rule waiting_visible)
  show "visible (run ?d (es @ later) s0)"
    using v by (simp add: run_append run_visible_mono)
  show "\<not> observing (run ?d (es @ later) s0)"
    using idle by (simp add: run_append run_not_observing)
  show "timer_count (run ?d (es @ later) s0) = timer_count (run ?d es s0)"
    using idle by (simp add: run_append run_idle_timer_count)
qed

theorem visible_is_a_latch_witness:
  "mount env_motion props_80 = Inr (armed 7)
   \<and> trace (Num 80) [Intersect [entry_25], Advance 80, Intersect [entry_out], Unmount] (armed 7)
       = [False, False, True, True, True]
   \<and> rises (visible initial #
        trace (Num 80) [Intersect [entry_25], Advance 80, Intersect [entry_out], Unmount] (armed 7)) \<le> 1
   \<and> falls (visible initial #
        trace (Num 80) [Intersect [entry_25], Advance 80, Intersect [entry_out], Unmount] (armed 7)) = 0"
proof -
  have m: "mount env_motion props_80 = Inr (armed 7)" by (rule mount_env_motion)
  have t: "trace (Num 80) [Intersect [entry_25], Advance 80, Intersect [entry_out], Unmount] (armed 7)
       = [False, False, True, True, True]"
    by (simp add: deliver_def callback_def on_entry_def advance_visible setTimeout_def
        disconnect_def unmount_def observing_def sample_defs)
  from visible_is_a_latch [OF m, of "[Intersect [entry_25], Advance 80, Intersect [entry_out], Unmount]"]
    m t show ?thesis by simp
qed

text \<open>
  C3: an instance mounted while the reduced-motion preference is active has \<open>visible\<close>
  true right after the mount effect, and no observer is registered for it then or after
  any later events; no timer is scheduled either.
\<close>

theorem reduced_motion_visible_at_once:
  assumes "prefersReduced e"
  shows "\<exists>s0. mount e p = Inr s0 \<and> visible s0 \<and> obs s0 = None
       \<and> (\<forall>es. visible (run (delay_of p) es s0) \<and> obs (run (delay_of p) es s0) = None
              \<and> timer_count (run (delay_of p) es s0) = 0)"
proof -
  let ?s = "initial\<lparr>visible := True\<rparr>"
  have m: "mount e p = Inr ?s" using assms by (rule mount_reduced)
  have "obs ?s = None" "timers ?s = []" by simp_all
  from run_inert [OF this] m show ?thesis by auto
qed

theorem reduced_motion_visible_at_once_witness:
  "prefersReduced env_reduced
   \<and> (\<exists>s0. mount env_reduced props_default = Inr s0 \<and> visible s0 \<and> obs s0 = None
       \<and> (\<forall>es. visible (run (delay_of props_default) es s0)
              \<and> obs (run (delay_of props_default) es s0) = None
              \<and> timer_count (run (delay_of props_default) es s0) = 0))"
proof -
  have h: "prefersReduced env_reduced" by simp
  from reduced_motion_visible_at_once [OF h, of props_default] h show ?thesis by blast
qed

text \<open>
  C4: take an instance whose delay is a whole number \<open>n\<close> of milliseconds below \<open>2^31\<close>,
  as at every use in the page, and let its observer deliver, at clock time \<open>t\<close>, a batch
  with an entry whose intersection ratio is at or above 20%. Then \<open>visible\<close> is false in
  every later state whose clock is before \<open>t + n\<close>, whatever events came in between. As
  long as the instance has not been unmounted, \<open>visible\<close> is true from the clock step
  that reaches \<open>t + n\<close> on, and stays true whatever follows (further intersection
  reports, the element leaving the viewport); and with \<open>n\<close> positive \<open>visible\<close> is true
  exactly in the states whose clock has reached \<open>t + n\<close>.
\<close>

theorem visible_after_delay:
  assumes "mount e p = Inr s0"
    and "delay_of p = Num (of_nat n)" and "n < 2147483648"
    and "observing (run (delay_of p) before s0)"
    and "obs (run (delay_of p) before s0) = Some ob"
    and "\<exists>r \<in> set rs. 1 / 5 \<le> r"
  shows "(\<forall>after.
            now (run (delay_of p) (before @ Intersect (map (report ob) rs) # after) s0)
              < now (run (delay_of p) before s0) + n
            \<longrightarrow> \<not> visible (run (delay_of p) (before @ Intersect (map (report ob) rs) # after) s0))
       \<and> (\<forall>after k later.
            Unmount \<notin> set after
            \<and> now (run (delay_of p) before s0) + n
                \<le> now (run (delay_of p) (before @ Intersect (map (report ob) rs) # after) s0) + k
            \<longrightarrow> visible (run (delay_of p)
                  (before @ Intersect (map (report ob) rs) # after @ Advance k # later) s0))
       \<and> (0 < n \<longrightarrow>
            (\<forall>after. Unmount \<notin> set after \<longrightarrow>
               visible (run (delay_of p) (before @ Intersect (map (report ob) rs) # after) s0)
               = (now (run (delay_of p) before s0) + n
                    \<le> now (run (delay_of p) (before @ Intersect (map (report ob) rs) # after) s0))))"
proof -
  let ?d = "delay_of p"
  let ?s = "run ?d before s0"
  let ?entries = "map (report ob) rs"
  from assms(2,3) have tm: "timeout_ms ?d = n" by (simp add: timeout_ms_whole)
  from assms(1,5) have th: "threshold ob = 1 / 5" by (rule mount_threshold)
  have q: "filter isIntersecting ?entries \<noteq> []"
    unfolding reported_intersecting th using assms(6) .
  have w: "waiting ?s" using assms(1) by (simp add: mount_waiting run_waiting)
  note ac = after_callback [OF w assms(4) q, of ?d, unfolded tm]
  have r: "run ?d (before @ Intersect ?entries # after) s0 = run ?d after (deliver ?d ?entries ?s)"
    for after
    by (simp add: run_append)
  have r': "run ?d (before @ Intersect ?entries # after @ Advance k # later) s0
      = run ?d later (advance k (run ?d after (deliver ?d ?entries ?s)))" for after k later
    by (simp add: run_append)
  have early: "\<not> visible (run ?d (before @ Intersect ?entries # after) s0)"
    if "now (run ?d (before @ Intersect ?entries # after) s0) < now ?s + n" for after
    using that unfolding r by (rule ac(1))
  have late: "visible (run ?d (before @ Intersect ?entries # after @ Advance k # later) s0)"
    if "now ?s + n \<le> now (run ?d (before @ Intersect ?entries # after) s0) + k" for after k later
  proof -
    from that have "now ?s + n \<le> now (run ?d after (deliver ?d ?entries ?s)) + k"
      unfolding r .
    then have "visible (run ?d later (advance k (run ?d after (deliver ?d ?entries ?s))))"
      by (rule ac(2))
    then show ?thesis unfolding r' .
  qed
  have exact: "visible (run ?d (before @ Intersect ?entries # after) s0)
      = (now ?s + n \<le> now (run ?d (before @ Intersect ?entries # after) s0))"
    if "0 < n" for after
    using that unfolding r by (rule ac(3))
  from early late exact show ?thesis by blast
qed

theorem visible_after_delay_witness:
  "mount env_motion props_80 = Inr (armed 7)
   \<and> delay_of props_80 = Num (of_nat 80) \<and> (80 :: nat) < 2147483648
   \<and> \<not> visible (run (Num 80) [Intersect [report observer_7 0]] (armed 7))
   \<and> \<not> visible (run (Num 80) [Intersect [report observer_7 0],
          Intersect [report observer_7 (1 / 4)], Advance 79] (armed 7))
   \<and> visible (run (Num 80) [Intersect [report observer_7 0],
          Intersect [report observer_7 (1 / 4)], Advance 79, Advance 1] (armed 7))
   \<and> visible (run (Num 80) [Intersect [report observer_7 0],
          Intersect [report observer_7 (1 / 4)], Advance 79, Advance 1,
          Intersect [report observer_7 0], Advance 500] (armed 7))
   \<and> visible (run (Num 80) [Intersect [report observer_7 0],
          Intersect [report observer_7 (1 / 4)], Intersect [report observer_7 0],
          Advance 80] (armed 7))"
proof -
  let ?b = "[Intersect [report observer_7 0]]"
  let ?q = "Intersect (map (report observer_7) [1 / 4])"
  let ?s79 = "run (Num 80) (?b @ ?q # [Advance 79]) (armed 7)"
  let ?s80 = "run (Num 80) (?b @ ?q # [Intersect [report observer_7 0], Advance 80]) (armed 7)"
  have m: "mount env_motion props_80 = Inr (armed 7)" by (rule mount_env_motion)
  have dl: "delay_of props_80 = Num (of_nat 80)" by simp
  have lt: "(80 :: nat) < 2147483648" by simp
  have b: "run (Num 80) ?b (armed 7) = armed 7"
    by (simp add: deliver_observing observer_7_def)
  have o: "observing (run (delay_of props_80) ?b (armed 7))"
    unfolding delay_of_samples b by simp
  have ob: "obs (run (delay_of props_80) ?b (armed 7)) = Some observer_7"
    unfolding delay_of_samples b by (simp add: observer_7_def)
  have q: "\<exists>r \<in> set [1 / 4 :: rat]. 1 / 5 \<le> r"
    by (rule bexI [of _ "1 / 4"]) simp_all
  have n: "now ?s79 = 79"
    by (simp add: deliver_def)
  have n': "now ?s80 = 80"
    by (simp add: deliver_def)
  have u: "Unmount \<notin> set [Advance 79]" "Unmount \<notin> set [Intersect [report observer_7 0]]"
    by simp_all
  note t = visible_after_delay [OF m dl lt o ob q, unfolded delay_of_samples b]
  from t have "now ?s79 < now (armed 7) + 80 \<longrightarrow> \<not> visible ?s79"
    by blast
  then have c1: "\<not> visible ?s79"
    unfolding n by simp
  from t have "Unmount \<notin> set [Advance 79] \<and> now (armed 7) + 80 \<le> now ?s79 + 1
      \<longrightarrow> visible (run (Num 80) (?b @ ?q # [Advance 79] @ Advance 1 # []) (armed 7))"
    by blast
  then have c2: "visible (run (Num 80) (?b @ ?q # [Advance 79] @ Advance 1 # []) (armed 7))"
    unfolding n using u(1) by simp
  from t have "Unmount \<notin> set [Advance 79] \<and> now (armed 7) + 80 \<le> now ?s79 + 1
      \<longrightarrow> visible (run (Num 80) (?b @ ?q # [Advance 79] @ Advance 1 #
                  [Intersect [report observer_7 0], Advance 500]) (armed 7))"
    by blast
  then have c3: "visible (run (Num 80) (?b @ ?q # [Advance 79] @ Advance 1 #
                  [Intersect [report observer_7 0], Advance 500]) (armed 7))"
    unfolding n using u(1) by simp
  from t have "(0::nat) < 80 \<longrightarrow> (Unmount \<notin> set [Intersect [report observer_7 0], Advance 80]
      \<longrightarrow> visible ?s80 = (now (armed 7) + 80 \<le> now ?s80))"
    by blast
  then have c4: "visible ?s80"
    unfolding n' by simp
  have c0: "\<not> visible (run (Num 80) ?b (armed 7))"
    unfolding b by simp
  from m dl c0 c1 c2 c3 c4 show ?thesis by simp
qed

text \<open>
  C5, as stated, fails: where \<open>IntersectionObserver\<close> is not defined, the mount effect of
  an instance without reduced motion ends with the ReferenceError; no state with
  \<open>visible\<close> true results.
\<close>

theorem missing_observer_error_escapes:
  "mount env_no_observer props_default = Inl ReferenceError"
  by (simp add: mount_def effect_def prefersReduced_def new_IntersectionObserver_def
      env_no_observer_def)

text \<open>
  C5, amended: the mount effect does not catch an error of the observation facility. It
  fails exactly when reduced motion is not requested, the container element is present
  and the facility is absent or its constructor throws, and it fails with that very
  error; in every other case it completes. In particular, with reduced motion requested
  the facility is never touched.
\<close>

theorem facility_error_escapes:
  "(mount e p = Inl err) =
     (\<not> prefersReduced e \<and> ref_current e \<noteq> None
      \<and> (intersectionObserver e = Absent \<and> err = ReferenceError
         \<or> intersectionObserver e = Throwing \<and> err = ConstructorError))"
proof (cases "prefersReduced e")
  case True
  then show ?thesis by (simp add: mount_reduced)
next
  case False
  show ?thesis
  proof (cases "ref_current e")
    case None
    with False show ?thesis by (simp add: mount_no_element)
  next
    case (Some el)
    show ?thesis
    proof (cases "intersectionObserver e")
      case Available
      with False Some show ?thesis by (simp add: mount_observes)
    next
      case Absent
      with False Some show ?thesis by (auto simp: mount_throws)
    next
      case Throwing
      with False Some show ?thesis by (auto simp: mount_throws)
    qed
  qed
qed

theorem facility_error_escapes_witness:
  "mount env_throwing props_80 = Inl ConstructorError
   \<and> mount env_reduced props_80 \<noteq> Inl ConstructorError"
  using facility_error_escapes [of env_throwing props_80 ConstructorError]
    facility_error_escapes [of env_reduced props_80 ConstructorError]
  by (simp add: prefersReduced_def env_throwing_def env_reduced_def)

text \<open>
  C6: when an instance is unmounted before any intersecting entry has been delivered, the
  cleanup changes nothing but the observer, whose targets it empties: \<open>visible\<close>, the
  timers and the clock are as before. The observer, observing until then, no longer
  observes. \<open>visible\<close> keeps its value from the mount; for an instance mounted without
  reduced motion that value is false, and it stays false whatever happens later.
\<close>

theorem unmount_before_intersection:
  assumes "mount e p = Inr s0"
    and "Unmount \<notin> set es"
    and "\<forall>entries. Intersect entries \<in> set es \<longrightarrow> (\<forall>x \<in> set entries. \<not> isIntersecting x)"
  shows "unmount (run (delay_of p) es s0)
           = (run (delay_of p) es s0)\<lparr>obs := map_option (\<lambda>ob. ob\<lparr>targets := []\<rparr>) (obs s0)\<rparr>
       \<and> observing (run (delay_of p) es s0) = observing s0
       \<and> \<not> observing (unmount (run (delay_of p) es s0))
       \<and> visible (unmount (run (delay_of p) es s0)) = visible s0
       \<and> (\<not> prefersReduced e \<longrightarrow>
            (\<forall>later. \<not> visible (run (delay_of p) later (unmount (run (delay_of p) es s0)))))"
proof -
  let ?s = "run (delay_of p) es s0"
  from assms(1) have t0: "timers s0 = []" by (rule mount_timers)
  from run_quiet [OF t0 assms(2,3), of "delay_of p"]
  have o: "obs ?s = obs s0" and t: "timers ?s = []" and v: "visible ?s = visible s0"
    by simp_all
  have c: "cleanup ?s = cleanup s0" by simp
  have "unmount ?s = disconnect ?s"
  proof (cases "cleanup s0")
    case True
    with c show ?thesis by (simp add: unmount_def)
  next
    case False
    with assms(1) have "obs s0 = None" by (rule mount_cleanup_obs)
    with o have "disconnect ?s = ?s" by (simp add: disconnect_None)
    with False c show ?thesis by (simp add: unmount_def)
  qed
  then have u: "unmount ?s = ?s\<lparr>obs := map_option (\<lambda>ob. ob\<lparr>targets := []\<rparr>) (obs s0)\<rparr>"
    by (simp add: disconnect_def o)
  have ob: "observing ?s = observing s0" using o by (simp add: observing_def)
  have r: "\<not> observing (unmount ?s)"
  proof (cases "cleanup s0")
    case True
    with c show ?thesis by (simp add: unmount_releases)
  next
    case False
    with assms(1) have "obs s0 = None" by (rule mount_cleanup_obs)
    with o have "\<not> observing ?s" by (simp add: observing_def)
    then show ?thesis by (rule not_observing_unmount)
  qed
  have vu: "visible (unmount ?s) = visible s0" using v by simp
  have nv: "\<not> visible (run (delay_of p) later (unmount ?s))" if "\<not> prefersReduced e" for later
  proof -
    from that assms(1) have "\<not> visible s0"
      using mount_cases [of e p s0] by auto
    moreover have "visible (run (delay_of p) later (unmount ?s)) = visible (unmount ?s)"
      using r t by (simp add: run_idle)
    ultimately show ?thesis using vu by simp
  qed
  from u ob r vu nv show ?thesis by blast
qed

theorem unmount_before_intersection_witness:
  "mount env_motion props_80 = Inr (armed 7)
   \<and> unmount (run (Num 80) [Intersect [entry_out], Advance 30] (armed 7))
       = \<lparr>visible = False, obs = Some \<lparr>threshold = 1 / 5, targets = []\<rparr>, cleanup = True,
          timers = [], timer_count = 0, now = 30\<rparr>
   \<and> observing (run (Num 80) [Intersect [entry_out], Advance 30] (armed 7))
   \<and> \<not> observing (unmount (run (Num 80) [Intersect [entry_out], Advance 30] (armed 7)))
   \<and> \<not> visible (run (Num 80) [Intersect [entry_25], Advance 80]
                   (unmount (run (Num 80) [Intersect [entry_out], Advance 30] (armed 7))))"
proof -
  let ?es = "[Intersect [entry_out], Advance 30]"
  let ?s = "run (Num 80) ?es (armed 7)"
  have m: "mount env_motion props_80 = Inr (armed 7)" by (rule mount_env_motion)
  have h2: "Unmount \<notin> set ?es" by simp
  have h3: "\<forall>entries. Intersect entries \<in> set ?es \<longrightarrow> (\<forall>x \<in> set entries. \<not> isIntersecting x)"
    by (simp add: entry_out_def)
  have s: "?s = (armed 7)\<lparr>now := 30\<rparr>"
    by (simp add: deliver_skip entry_out_def advance_def)
  note t = unmount_before_intersection [OF m h2 h3, unfolded delay_of_samples]
  from t have u: "unmount ?s = ?s\<lparr>obs := map_option (\<lambda>ob. ob\<lparr>targets := []\<rparr>) (obs (armed 7))\<rparr>"
    and o: "observing ?s = observing (armed 7)"
    and r: "\<not> observing (unmount ?s)"
    and n: "\<not> prefersReduced env_motion \<longrightarrow> (\<forall>later. \<not> visible (run (Num 80) later (unmount ?s)))"
    by blast+
  from u have u': "unmount ?s = \<lparr>visible = False, obs = Some \<lparr>threshold = 1 / 5, targets = []\<rparr>,
          cleanup = True, timers = [], timer_count = 0, now = 30\<rparr>"
    unfolding s by (simp add: armed_def initial_def)
  from o have o': "observing ?s" by simp
  have "\<not> prefersReduced env_motion" by simp
  with n have "\<forall>later. \<not> visible (run (Num 80) later (unmount ?s))" by (rule mp)
  then have n': "\<not> visible (run (Num 80) [Intersect [entry_25], Advance 80] (unmount ?s))"
    by (rule spec)
  from m u' o' r n' show ?thesis by blast
qed

text \<open>
  C7, as stated, fails: not every instance mounted without reduced motion acquires an
  observation. With a null element reference the effect returns before it builds an
  observer, and where the observer's constructor throws the effect ends with the error.
\<close>

theorem observation_not_always_acquired:
  "\<not> prefersReduced env_no_element
   \<and> mount env_no_element props_80 = Inr initial \<and> obs initial = None
   \<and> \<not> prefersReduced env_throwing
   \<and> mount env_throwing props_80 = Inl ConstructorError"
proof -
  have "mount env_throwing props_80 = Inl ConstructorError"
    by (simp add: mount_def effect_def prefersReduced_def new_IntersectionObserver_def
        env_throwing_def)
  moreover have "\<not> prefersReduced env_throwing"
    by (simp add: prefersReduced_def env_throwing_def)
  moreover have "mount env_no_element props_80 = Inr initial"
    by (rule mount_env_no_element)
  ultimately show ?thesis by simp
qed

text \<open>
  C7, amended: for an instance mounted without reduced motion, with its container
  element present and the observer constructor available, the mount effect registers an
  observer on that element with threshold 0.2; and a batch of entries that this observer
  reports triggers the transition (a timer is scheduled and the observer released)
  exactly when one of the entries has an intersection ratio at or above 20%.
\<close>

theorem observation_acquired_with_threshold:
  assumes "\<not> prefersReduced e" and "ref_current e = Some el"
    and "intersectionObserver e = Available"
  shows "\<exists>s0 ob. mount e p = Inr s0 \<and> obs s0 = Some ob
       \<and> threshold ob = 1 / 5 \<and> targets ob = [el]
       \<and> (\<forall>rs. (timers (step (delay_of p) (Intersect (map (report ob) rs)) s0) \<noteq> [])
                 = (\<exists>r \<in> set rs. 1 / 5 \<le> r))
       \<and> (\<forall>rs. (\<not> observing (step (delay_of p) (Intersect (map (report ob) rs)) s0))
                 = (\<exists>r \<in> set rs. 1 / 5 \<le> r))"
proof -
  let ?ob = "\<lparr>threshold = 1 / 5, targets = [el]\<rparr>"
  have m: "mount e p = Inr (armed el)" using assms by (rule mount_observes)
  have q: "(filter isIntersecting (map (report ?ob) rs) \<noteq> []) = (\<exists>r \<in> set rs. 1 / 5 \<le> r)"
    for rs
    by (subst reported_intersecting) simp
  have a: "(timers (step (delay_of p) (Intersect (map (report ?ob) rs)) (armed el)) \<noteq> [])
            = (\<exists>r \<in> set rs. 1 / 5 \<le> r)" for rs
  proof -
    have "(timers (deliver (delay_of p) (map (report ?ob) rs) (armed el)) \<noteq> [])
        = (filter isIntersecting (map (report ?ob) rs) \<noteq> [])"
      by (rule deliver_triggers) simp_all
    then show ?thesis unfolding q step.simps .
  qed
  have b: "(\<not> observing (step (delay_of p) (Intersect (map (report ?ob) rs)) (armed el)))
            = (\<exists>r \<in> set rs. 1 / 5 \<le> r)" for rs
  proof -
    have "(\<not> observing (deliver (delay_of p) (map (report ?ob) rs) (armed el)))
        = (filter isIntersecting (map (report ?ob) rs) \<noteq> [])"
      by (rule deliver_releases_iff) simp
    then show ?thesis unfolding q step.simps .
  qed
  have "obs (armed el) = Some ?ob" "threshold ?ob = 1 / 5" "targets ?ob = [el]" by simp_all
  with m a b show ?thesis by blast
qed

theorem observation_acquired_with_threshold_witness:
  "\<not> prefersReduced env_motion \<and> ref_current env_motion = Some 7
   \<and> intersectionObserver env_motion = Available
   \<and> mount env_motion props_80 = Inr (armed 7) \<and> obs (armed 7) = Some observer_7
   \<and> timers (step (Num 80) (Intersect [report observer_7 (1 / 10)]) (armed 7)) = []
   \<and> timers (step (Num 80) (Intersect [report observer_7 (1 / 10), report observer_7 (1 / 5)])
        (armed 7)) = [80]
   \<and> (\<exists>s0 ob. mount env_motion props_80 = Inr s0 \<and> obs s0 = Some ob
       \<and> threshold ob = 1 / 5 \<and> targets ob = [7]
       \<and> (\<forall>rs. (timers (step (delay_of props_80) (Intersect (map (report ob) rs)) s0) \<noteq> [])
                 = (\<exists>r \<in> set rs. 1 / 5 \<le> r))
       \<and> (\<forall>rs. (\<not> observing (step (delay_of props_80) (Intersect (map (report ob) rs)) s0))
                 = (\<exists>r \<in> set rs. 1 / 5 \<le> r)))"
proof -
  have h1: "\<not> prefersReduced env_motion" by simp
  have h2: "ref_current env_motion = Some 7" by (simp add: env_motion_def)
  have h3: "intersectionObserver env_motion = Available" by (simp add: env_motion_def)
  have m: "mount env_motion props_80 = Inr (armed 7)" by (rule mount_env_motion)
  have o: "obs (armed 7) = Some observer_7" by (simp add: observer_7_def)
  have t1: "timers (step (Num 80) (Intersect [report observer_7 (1 / 10)]) (armed 7)) = []"
    by (simp add: deliver_def callback_timers observer_7_def)
  have t2: "timers (step (Num 80)
      (Intersect [report observer_7 (1 / 10), report observer_7 (1 / 5)]) (armed 7)) = [80]"
    by (simp add: deliver_def callback_timers observer_7_def timeout_ms_def Let_def)
  from observation_acquired_with_threshold [OF h1 h2 h3, of props_80] h1 h2 h3 m o t1 t2
  show ?thesis by blast
qed

text \<open>
  C8: an instance mounted without the reduced-motion preference has \<open>visible\<close> false right
  after the mount effect: whichever of its branches the effect took (no element, or an
  observer registered), the state it leaves has \<open>visible = False\<close>.
\<close>

theorem mount_without_reduced_motion_hidden:
  "\<not> prefersReduced e \<Longrightarrow> mount e p = Inr s \<Longrightarrow> \<not> visible s"
  using mount_cases [of e p s] by auto

theorem mount_without_reduced_motion_hidden_witness:
  "\<not> prefersReduced env_motion \<and> mount env_motion props_80 = Inr (armed 7)
   \<and> \<not> visible (armed 7)"
proof -
  have h1: "\<not> prefersReduced env_motion"
    by (simp add: prefersReduced_def env_motion_def)
  have h2: "mount env_motion props_80 = Inr (armed 7)"
    by (rule mount_observes [OF h1]) (simp_all add: env_motion_def)
  from mount_without_reduced_motion_hidden [OF h1 h2] h1 h2 show ?thesis by simp
qed

text \<open>
  C9: the class list of the rendered container is a function of the props and of the
  current \<open>visible\<close> flag. With \<open>visible\<close> false it is the base classes followed by the
  hidden, offset state \<open>opacity-0 translate-y-3\<close>; with \<open>visible\<close> true it is the base
  classes followed by the resting state \<open>opacity-100 translate-y-0\<close>; in both cases the
  caller's \<open>className\<close> follows when it is not empty, and the two renderings differ.
\<close>

theorem render_reflects_visible:
  "render p False =
     ''transform transition-all duration-500 ease-out will-change-[opacity,transform]'' @
     '' opacity-0 translate-y-3'' @
     (if className_of p = [] then [] else '' '' @ className_of p)
   \<and> render p True =
     ''transform transition-all duration-500 ease-out will-change-[opacity,transform]'' @
     '' opacity-100 translate-y-0'' @
     (if className_of p = [] then [] else '' '' @ className_of p)
   \<and> render p True \<noteq> render p False"
  by (simp add: render_def cn_def)

theorem render_reflects_visible_witness:
  "render props_default False =
     ''transform transition-all duration-500 ease-out will-change-[opacity,transform] opacity-0 translate-y-3 mt-5''
   \<and> render props_80 True =
     ''transform transition-all duration-500 ease-out will-change-[opacity,transform] opacity-100 translate-y-0''"
  using render_reflects_visible [of props_default] render_reflects_visible [of props_80]
  by (simp add: className_of_def props_default_def props_80_def)

text \<open>
  C10: without reduced motion and with \<open>ref.current\<close> null when the effect runs, the
  effect returns early with the state untouched: no observer is registered, no timer is
  scheduled, and \<open>visible\<close> is false after every later sequence of events.
\<close>

theorem null_ref_never_visible:
  assumes "\<not> prefersReduced e" and "ref_current e = None"
  shows "mount e p = Inr initial
       \<and> (\<forall>es. obs (run (delay_of p) es initial) = None
              \<and> timer_count (run (delay_of p) es initial) = 0
              \<and> \<not> visible (run (delay_of p) es initial))"
proof -
  have m: "mount e p = Inr initial" using assms by (rule mount_no_element)
  have "obs initial = None" "timers initial = []" by simp_all
  from run_inert [OF this] m show ?thesis by simp
qed

theorem null_ref_never_visible_witness:
  "\<not> prefersReduced env_no_element \<and> ref_current env_no_element = None
   \<and> mount env_no_element props_80 = Inr initial
   \<and> obs (run (Num 80) [Intersect [entry_25], Advance 80, Unmount] initial) = None
   \<and> timer_count (run (Num 80) [Intersect [entry_25], Advance 80, Unmount] initial) = 0
   \<and> \<not> visible (run (Num 80) [Intersect [entry_25], Advance 80, Unmount] initial)"
proof -
  have h1: "\<not> prefersReduced env_no_element" by simp
  have h2: "ref_current env_no_element = None" by (simp add: env_no_element_def)
  from null_ref_never_visible [OF h1 h2, of props_80]
  have m: "mount env_no_element props_80 = Inr initial"
    and r: "\<forall>es. obs (run (Num 80) es initial) = None \<and> timer_count (run (Num 80) es initial) = 0
              \<and> \<not> visible (run (Num 80) es initial)"
    by simp_all
  from r have "obs (run (Num 80) [Intersect [entry_25], Advance 80, Unmount] initial) = None
     \<and> timer_count (run (Num 80) [Intersect [entry_25], Advance 80, Unmount] initial) = 0
     \<and> \<not> visible (run (Num 80) [Intersect [entry_25], Advance 80, Unmount] initial)"
    by (rule spec)
  with h1 h2 m show ?thesis by blast
qed

end
